theory Spec2Isabelle
  imports Main "HOL-Library.Word"
begin

unbundle bit_operations_syntax

section \<open>Soft values and their JSON output\<close>

text \<open>
  A soft value (FIOBJ) is a tagged pointer; the tag selects one of the classes below
  (\<open>FInvalid\<close> is the value 0). Arrays hold their children in index order, hashes hold
  their couplets, key and value, in the order of the insertion ring (the order
  \<open>FIO_MAP_EACH\<close> visits them). \<open>FOther\<close> stands for the values of an extension; its
  argument tells them apart.
\<close>

datatype fiobj =
    FInvalid
  | FNull
  | FTrue
  | FFalse
  | FNumber int
  | FFloat "64 word"
  | FString string
  | FArray "fiobj list"
  | FHash "(fiobj \<times> fiobj) list"
  | FOther nat










text \<open>
  A value with everything removed that lies deeper than \<open>n\<close> containers, counting the
  arrays and hashes entered through their elements and values: the containers at that depth
  are emptied. Keys are left as they are.
\<close>

fun cut_nesting :: "nat \<Rightarrow> fiobj \<Rightarrow> fiobj"
  and cut_elements :: "nat \<Rightarrow> fiobj list \<Rightarrow> fiobj list"
  and cut_couplets :: "nat \<Rightarrow> (fiobj \<times> fiobj) list \<Rightarrow> (fiobj \<times> fiobj) list"
where
  "cut_nesting n (FArray xs) = (case n of 0 \<Rightarrow> FArray [] | Suc m \<Rightarrow> FArray (cut_elements m xs))"
| "cut_nesting n (FHash kvs) = (case n of 0 \<Rightarrow> FHash [] | Suc m \<Rightarrow> FHash (cut_couplets m kvs))"
| "cut_nesting n FInvalid = FInvalid"
| "cut_nesting n FNull = FNull"
| "cut_nesting n FTrue = FTrue"
| "cut_nesting n FFalse = FFalse"
| "cut_nesting n (FNumber i) = FNumber i"
| "cut_nesting n (FFloat f) = FFloat f"
| "cut_nesting n (FString s) = FString s"
| "cut_nesting n (FOther t) = FOther t"
| "cut_elements n [] = []"
| "cut_elements n (x # xs) = cut_nesting n x # cut_elements n xs"
| "cut_couplets n [] = []"
| "cut_couplets n (kv # kvs) = (fst kv, cut_nesting n (snd kv)) # cut_couplets n kvs"




section \<open>The streaming JSON parser\<close>

text \<open>
  \<open>fio_json_parser_s\<close>: the nesting bitmap (dictionary bit 0, array bit 1), the level of
  nesting and the expectation flags.
\<close>

record fio_json_parser_s =
  nesting :: "32 word"
  depth :: "8 word"
  expect :: "8 word"

definition FIO_JSON_INIT :: fio_json_parser_s where
  "FIO_JSON_INIT = \<lparr> nesting = 0, depth = 0, expect = 0 \<rparr>"

text \<open>
  \<open>JSON_MAX_DEPTH\<close>: the header sets it to 31 unless the includer defined a value of at
  most 32; nothing in the repository defines one.
\<close>

definition JSON_MAX_DEPTH :: "8 word" where
  "JSON_MAX_DEPTH = 31"

text \<open>The callbacks of the parser, recorded as the events they are called with.\<close>

datatype json_event =
    On_null
  | On_true
  | On_false
  | On_number int
  | On_float "64 word"
  | On_string nat nat
  | On_start_object
  | On_end_object
  | On_start_array
  | On_end_array
  | On_json
  | On_error

text \<open>
  What the parser takes from outside: \<open>fio_atol\<close> and \<open>fio_atof\<close> (the value read and the
  position after it; the numeral conversions are outside the core) and the address of the
  first byte of the buffer, which decides when the 8-byte whitespace scan starts.
\<close>

record json_env =
  fio_atol :: "string \<Rightarrow> nat \<Rightarrow> int \<times> nat"
  fio_atof :: "string \<Rightarrow> nat \<Rightarrow> 64 word \<times> nat"
  buffer_addr :: nat

text \<open>
  A buffer is the list of its bytes and a pointer into it an index; \<open>stop\<close> is the
  length. A read outside the buffer (the source has some) yields a NUL byte here.
\<close>

definition byte_at :: "string \<Rightarrow> nat \<Rightarrow> char" where
  "byte_at buf i = (if i < length buf then buf ! i else CHR 0x00)"

definition byte_before :: "string \<Rightarrow> nat \<Rightarrow> nat \<Rightarrow> char" where
  "byte_before buf i k = (if k \<le> i then byte_at buf (i - k) else CHR 0x00)"

text \<open>\<open>c | 32\<close> on a byte.\<close>

definition or32 :: "char \<Rightarrow> char" where
  "or32 c = char_of ((of_char c :: nat) OR 32)"

text \<open>\<open>memchr(buf + i, c, stop - (buf + i))\<close>: the first index from \<open>i\<close> on that holds \<open>c\<close>.\<close>

definition memchr :: "string \<Rightarrow> nat \<Rightarrow> char \<Rightarrow> nat option" where
  "memchr buf i c =
     (let r = dropWhile (\<lambda>x. x \<noteq> c) (drop i buf)
      in if r = [] then None else Some (length buf - length r))"

text \<open>The block-comment loop of \<open>fio_json_____skip_comments\<close>.\<close>

function skip_block_comment :: "string \<Rightarrow> nat \<Rightarrow> nat option" where
  "skip_block_comment buf b =
     (case memchr buf b (CHR ''/'') of
        None \<Rightarrow> None
      | Some j \<Rightarrow>
          if b \<le> j \<and> j < length buf \<and> byte_before buf (Suc j) 2 \<noteq> CHR ''*''
          then skip_block_comment buf (Suc j)
          else Some (Suc j))"
  by pat_completeness auto
termination
  by (relation "measure (\<lambda>(buf, b). length buf - b)") auto

definition fio_json_____skip_comments :: "string \<Rightarrow> nat \<Rightarrow> nat option" where
  "fio_json_____skip_comments buf i =
     (if byte_at buf i = CHR ''#'' \<or>
         (length buf - i > 2 \<and> byte_at buf i = CHR ''/'' \<and> byte_at buf (i + 1) = CHR ''/'')
      then memchr buf (i + 1) (CHR 0x0A)
      else if length buf - i > 3 \<and> byte_at buf i = CHR ''/'' \<and> byte_at buf (i + 1) = CHR ''*''
      then skip_block_comment buf i
      else None)"

text \<open>
  \<open>fio_json_____consume_string\<close>: \<open>i\<close> is the opening quote. A quote preceded by an odd
  number of backslashes is escaped and the search goes on after it.
\<close>

function count_backslashes :: "string \<Rightarrow> nat \<Rightarrow> nat \<Rightarrow> nat" where
  "count_backslashes buf j escaped =
     (if escaped \<le> j \<and> byte_before buf j escaped = CHR 0x5C
      then count_backslashes buf j (Suc escaped) else escaped)"
  by pat_completeness auto
termination
  by (relation "measure (\<lambda>(buf, j, escaped). Suc j - escaped)") auto

function find_string_end :: "string \<Rightarrow> nat \<Rightarrow> nat option" where
  "find_string_end buf b =
     (case memchr buf b (CHR 0x22) of
        None \<Rightarrow> None
      | Some j \<Rightarrow>
          if odd (count_backslashes buf j 1) \<or> \<not> (b \<le> j \<and> j < length buf) then Some j
          else find_string_end buf (Suc j))"
  by pat_completeness auto
termination
  by (relation "measure (\<lambda>(buf, b). length buf - b)") auto

definition fio_json_____consume_string :: "string \<Rightarrow> nat \<Rightarrow> (nat \<times> json_event list) option" where
  "fio_json_____consume_string buf i =
     (let start = i + 1 in
      case find_string_end buf start of
        None \<Rightarrow> None
      | Some j \<Rightarrow> Some (j + 1, [On_string start (j - start)]))"

text \<open>\<open>fio_json_____consume_number\<close>.\<close>

definition fio_json_____consume_number :: "json_env \<Rightarrow> string \<Rightarrow> nat \<Rightarrow> nat \<times> json_event list" where
  "fio_json_____consume_number env buf was =
     (let (i, b) = fio_atol env buf was in
      if b < length buf \<and>
         (byte_at buf b = CHR ''.'' \<or> or32 (byte_at buf b) = CHR ''e'' \<or>
          or32 (byte_at buf b) = CHR ''x'' \<or> or32 (byte_at buf b) = CHR ''p'' \<or>
          or32 (byte_at buf b) = CHR ''i'')
      then (let (f, b2) = fio_atof env buf was in (b2, [On_float f]))
      else (b, [On_number i]))"

text \<open>
  The 8-byte whitespace scan: the word at \<open>i\<close> is compared with the four whitespace
  bytes, each spread over a word.
\<close>

definition load64 :: "string \<Rightarrow> nat \<Rightarrow> 64 word" where
  "load64 buf i = foldr (\<lambda>c w. of_char c + w * 256) (take 8 (drop i buf)) 0"

definition ws_match :: "64 word \<Rightarrow> 64 word \<Rightarrow> 64 word" where
  "ws_match x c =
     (let t = NOT ((0x0101010101010101 * c) XOR x)
      in ((t AND 0x7f7f7f7f7f7f7f7f) + 0x0101010101010101) AND (t AND 0x8080808080808080))"

function skip_whitespace8 :: "string \<Rightarrow> nat \<Rightarrow> nat" where
  "skip_whitespace8 buf b =
     (if b + 8 < length buf \<and>
         (ws_match (load64 buf b) 0x09 OR ws_match (load64 buf b) 0x0A OR
          ws_match (load64 buf b) 0x0D OR ws_match (load64 buf b) 0x20) = 0x8080808080808080
      then skip_whitespace8 buf (b + 8) else b)"
  by pat_completeness auto
termination
  by (relation "measure (\<lambda>(buf, b). length buf - b)") auto

text \<open>
  The closing statement of \<open>fio_json_____identify\<close>, reached by \<open>break\<close>:
  \<open>p->expect = (p->expect << 1) + ((p->expect ^ 2) >> 1)\<close>.
\<close>

definition next_expect :: "fio_json_parser_s \<Rightarrow> fio_json_parser_s" where
  "next_expect p = p\<lparr> expect := push_bit 1 (expect p) + drop_bit 1 (expect p XOR 2) \<rparr>"

definition value_not_expected :: "fio_json_parser_s \<Rightarrow> bool" where
  "value_not_expected p \<longleftrightarrow> depth p \<noteq> 0 \<and> expect p AND 2 = 0"

text \<open>
  \<open>fio_json_____identify\<close> at index \<open>i\<close>: the new position (\<open>None\<close> for \<open>NULL\<close>), the
  parser afterwards and the callbacks fired, in order.
\<close>

definition fio_json_____identify ::
    "json_env \<Rightarrow> fio_json_parser_s \<Rightarrow> string \<Rightarrow> nat \<Rightarrow> nat option \<times> fio_json_parser_s \<times> json_event list" where
  "fio_json_____identify env p buf i =
     (let c = byte_at buf i in
      if c = CHR 0x09 \<or> c = CHR 0x0A \<or> c = CHR 0x0D \<or> c = CHR 0x20 then
        (Some (if (buffer_addr env + (i + 1)) mod 8 = 0 then skip_whitespace8 buf (i + 1) else i + 1),
         p, [])
      else if c = CHR '','' then
        (if depth p = 0 \<or> expect p AND 4 = 0 then (None, p, [On_error])
         else (Some (i + 1), p\<lparr> expect := ucast (push_bit 1 (nesting p AND 1)) \<rparr>, []))
      else if c = CHR '':'' then
        (if depth p = 0 \<or> expect p AND 1 = 0 then (None, p, [On_error])
         else (Some (i + 1), p\<lparr> expect := 2 \<rparr>, []))
      else if c = CHR 0x22 then
        (if depth p \<noteq> 0 \<and> expect p AND 5 \<noteq> 0 then (None, p, [On_error])
         else case fio_json_____consume_string buf i of
                None \<Rightarrow> (None, p, [On_error])
              | Some (b, evs) \<Rightarrow> (Some b, next_expect p, evs))
      else if c = CHR ''{'' then
        (if value_not_expected p then (None, p, [On_error])
         else
           let p1 = p\<lparr> expect := 0, nesting := push_bit 1 (nesting p) \<rparr> in
           if depth p1 = JSON_MAX_DEPTH then (None, p1, [On_error])
           else (Some (i + 1), p1\<lparr> depth := depth p1 + 1 \<rparr>, [On_start_object]))
      else if c = CHR ''}'' then
        (if nesting p AND 1 \<noteq> 0 \<or> depth p = 0 \<or> expect p AND 3 \<noteq> 0 then (None, p, [On_error])
         else (Some (i + 1),
               p\<lparr> nesting := drop_bit 1 (nesting p), expect := 4, depth := depth p - 1 \<rparr>,
               [On_end_object]))
      else if c = CHR ''['' then
        (if value_not_expected p then (None, p, [On_error])
         else
           let p1 = p\<lparr> expect := 2, nesting := push_bit 1 (nesting p) OR 1 \<rparr> in
           if depth p1 = JSON_MAX_DEPTH then (None, p1, [On_start_array, On_error])
           else (Some (i + 1), p1\<lparr> depth := depth p1 + 1 \<rparr>, [On_start_array]))
      else if c = CHR '']'' then
        (if nesting p AND 1 = 0 \<or> depth p = 0 then (None, p, [On_error])
         else (Some (i + 1),
               p\<lparr> nesting := drop_bit 1 (nesting p), expect := 4, depth := depth p - 1 \<rparr>,
               [On_end_array]))
      else if c = CHR ''N'' \<or> c = CHR ''n'' then
        (if value_not_expected p then (None, p, [On_error])
         else if i + 4 > length buf \<or> byte_at buf (i + 1) \<noteq> CHR ''u'' \<or>
                 byte_at buf (i + 2) \<noteq> CHR ''l'' \<or> byte_at buf (i + 3) \<noteq> CHR ''l''
         then (if i + 3 > length buf \<or> or32 (byte_at buf (i + 1)) \<noteq> CHR ''a'' \<or>
                  or32 (byte_at buf (i + 2)) \<noteq> CHR ''n''
               then (None, p, [])
               else (Some (i + 3), next_expect p, []))
         else (Some (i + 4), next_expect p, [On_null]))
      else if c = CHR ''t'' then
        (if value_not_expected p then (None, p, [On_error])
         else if i + 4 > length buf \<or> byte_at buf (i + 1) \<noteq> CHR ''r'' \<or>
                 byte_at buf (i + 2) \<noteq> CHR ''u'' \<or> byte_at buf (i + 3) \<noteq> CHR ''e''
         then (None, p, [])
         else (Some (i + 4), next_expect p, [On_true]))
      else if c = CHR ''f'' then
        (if value_not_expected p then (None, p, [On_error])
         else if i + 5 > length buf \<or> byte_at buf (i + 1) \<noteq> CHR ''a'' \<or>
                 byte_at buf (i + 2) \<noteq> CHR ''l'' \<or> byte_at buf (i + 3) \<noteq> CHR ''s'' \<or>
                 byte_at buf (i + 4) \<noteq> CHR ''e''
         then (None, p, [])
         else (Some (i + 5), next_expect p, [On_false]))
      else if c \<in> set ''+-0123456789x.eEiI'' then
        (if value_not_expected p then (None, p, [On_error])
         else let (b, evs) = fio_json_____consume_number env buf i
              in (Some b, next_expect p, evs))
      else if c = CHR ''#'' \<or> c = CHR ''/'' then
        (fio_json_____skip_comments buf i, p, [])
      else (None, p, []))"

text \<open>
  \<open>fio_json_parse\<close>: the first loop runs \<open>identify\<close> until something is expected or the
  buffer ends, the second while the parser is inside a container. Both are given a number
  of rounds they may take (\<open>None\<close> when it runs out): with the numeral conversions left
  open, a round need not move forward. The result is the number of bytes consumed.
\<close>

fun parse_first_loop ::
    "nat \<Rightarrow> json_env \<Rightarrow> fio_json_parser_s \<Rightarrow> string \<Rightarrow> nat \<Rightarrow> json_event list
      \<Rightarrow> ((nat + nat) \<times> fio_json_parser_s \<times> json_event list) option" where
  "parse_first_loop 0 env p buf b evs = None"
| "parse_first_loop (Suc fuel) env p buf b evs =
     (case fio_json_____identify env p buf b of
        (None, p', evs') \<Rightarrow> Some (Inl b, p', evs @ evs')
      | (Some b', p', evs') \<Rightarrow>
          if expect p' = 0 \<and> b' < length buf
          then parse_first_loop fuel env p' buf b' (evs @ evs')
          else Some (Inr b', p', evs @ evs'))"

fun parse_second_loop ::
    "nat \<Rightarrow> json_env \<Rightarrow> fio_json_parser_s \<Rightarrow> string \<Rightarrow> nat \<Rightarrow> json_event list
      \<Rightarrow> ((nat + nat) \<times> fio_json_parser_s \<times> json_event list) option" where
  "parse_second_loop 0 env p buf b evs = None"
| "parse_second_loop (Suc fuel) env p buf b evs =
     (if depth p \<noteq> 0 \<and> b < length buf then
        (case fio_json_____identify env p buf b of
           (None, p', evs') \<Rightarrow> Some (Inl b, p', evs @ evs')
         | (Some b', p', evs') \<Rightarrow> parse_second_loop fuel env p' buf b' (evs @ evs'))
      else Some (Inr b, p, evs))"

definition fio_json_parse ::
    "nat \<Rightarrow> json_env \<Rightarrow> fio_json_parser_s \<Rightarrow> string
      \<Rightarrow> (nat \<times> fio_json_parser_s \<times> json_event list) option" where
  "fio_json_parse fuel env p buf =
     (case parse_first_loop fuel env p buf 0 [] of
        None \<Rightarrow> None
      | Some (Inl failed_at, p1, evs1) \<Rightarrow> Some (failed_at, p1, evs1)
      | Some (Inr b1, p1, evs1) \<Rightarrow>
          (case parse_second_loop fuel env p1 buf b1 evs1 of
             None \<Rightarrow> None
           | Some (Inl failed_at, p2, evs2) \<Rightarrow> Some (failed_at, p2, evs2)
           | Some (Inr b2, p2, evs2) \<Rightarrow>
               if depth p2 = 0 then Some (b2, p2\<lparr> expect := 0 \<rparr>, evs2 @ [On_json])
               else Some (b2, p2, evs2)))"

text \<open>
  The parser states that any sequence of \<open>identify\<close> calls, on any buffers at any
  positions, can reach from a given state.
\<close>

inductive json_reachable :: "json_env \<Rightarrow> fio_json_parser_s \<Rightarrow> fio_json_parser_s \<Rightarrow> bool"
  for env :: json_env and p0 :: fio_json_parser_s where
  start: "json_reachable env p0 p0"
| step: "json_reachable env p0 p \<Longrightarrow> fio_json_____identify env p buf i = (r, p', evs)
         \<Longrightarrow> json_reachable env p0 p'"

text \<open>
  Test data: numeral conversions that skip a run of decimal digits and report zero, a
  buffer at an aligned address, and the parser after 31 opening brackets.
\<close>

definition skip_digits :: "string \<Rightarrow> nat \<Rightarrow> nat" where
  "skip_digits buf i = i + length (takeWhile (\<lambda>c. c \<in> set ''0123456789'') (drop i buf))"

definition plain_json_env :: json_env where
  "plain_json_env = \<lparr> fio_atol = (\<lambda>buf i. (0, skip_digits buf i)),
                 fio_atof = (\<lambda>buf i. (0, skip_digits buf i)), buffer_addr = 0 \<rparr>"

definition parser_at_31 :: fio_json_parser_s where
  "parser_at_31 = \<lparr> nesting = 0x7FFFFFFF, depth = 31, expect = 2 \<rparr>"

section \<open>The dynamic array\<close>

text \<open>
  The array record: the buffer \<open>ary\<close> (a list of \<open>capa\<close> cells), the capacity and the live
  region \<open>[start, end)\<close>. Field names carry the prefix \<open>ary_\<close>; \<open>end\<close> is \<open>ary_end\<close>.
\<close>

record 'a ary_s =
  ary :: "'a list"
  ary_capa :: nat
  ary_start :: nat
  ary_end :: nat

text \<open>
  What the template is instantiated with: the invalid value of the element type (all
  bytes zero, the default \<open>FIO_ARRAY_TYPE_INVALID\<close>, so that \<open>memset\<close> and \<open>calloc\<close>
  produce it), \<open>sizeof(FIO_ARRAY_TYPE)\<close>, and what the cells hold that \<open>realloc\<close> adds
  beyond the copied part. Copying and destroying an element are the defaults (assignment
  and nothing). \<open>FIO_ARRAY_PADDING\<close> is 4 and growth is not exponential.
\<close>

record 'a ary_cfg =
  type_invalid :: 'a
  type_size :: nat
  fresh_cell :: 'a

definition FIO_ARRAY_INIT :: "'a ary_s" where
  "FIO_ARRAY_INIT = \<lparr> ary = [], ary_capa = 0, ary_start = 0, ary_end = 0 \<rparr>"

definition FIO_ARRAY_PADDING :: nat where
  "FIO_ARRAY_PADDING = 4"

text \<open>\<open>FIO_ARRAY_SIZE2WORDS\<close>; \<open>(size & ~15) + 16\<close> is \<open>size - size mod 16 + 16\<close>.\<close>

definition FIO_ARRAY_SIZE2WORDS :: "'a ary_cfg \<Rightarrow> nat \<Rightarrow> nat" where
  "FIO_ARRAY_SIZE2WORDS cfg sz =
     (if odd (type_size cfg) then sz - sz mod 16 + 16
      else if odd (type_size cfg div 2) then sz - sz mod 8 + 8
      else if odd (type_size cfg div 4) then sz - sz mod 4 + 4
      else if odd (type_size cfg div 8) then sz - sz mod 2 + 2
      else sz)"

text \<open>\<open>FIO_MEM_REALLOC_\<close>: the first \<open>copy_len\<close> cells are kept.\<close>

definition mem_realloc :: "'a ary_cfg \<Rightarrow> 'a list \<Rightarrow> nat \<Rightarrow> nat \<Rightarrow> 'a list" where
  "mem_realloc cfg old new_capa copy_len =
     take new_capa (take copy_len old @ replicate (new_capa - min copy_len (length old)) (fresh_cell cfg))"

text \<open>\<open>memset(ary + from, 0, n * sizeof(*ary))\<close>.\<close>

definition mem_clear :: "'a ary_cfg \<Rightarrow> 'a list \<Rightarrow> nat \<Rightarrow> nat \<Rightarrow> 'a list" where
  "mem_clear cfg mem from n =
     take from mem @ replicate (min n (length mem - from)) (type_invalid cfg) @ drop (from + n) mem"

text \<open>
  \<open>set\<close>, called \<open>ary_set\<close> here. The index is an \<open>int32_t\<close>, the counters are \<open>uint32_t\<close>;
  they are integers and naturals here, exact as long as no value reaches \<open>2^31\<close>. The
  result is the array and the index of the cell written (the pointer returned); memory is
  taken to be available. The \<open>old\<close> argument is left out: every caller below passes
  \<open>NULL\<close>.
\<close>

definition ary_set :: "'a ary_cfg \<Rightarrow> 'a ary_s \<Rightarrow> int \<Rightarrow> 'a \<Rightarrow> 'a ary_s \<times> nat" where
  "ary_set cfg a index data =
     (if index \<ge> 0 then
        (let idx = nat index + ary_start a;
             a1 = (if idx \<ge> ary_capa a
                   then (let new_capa = FIO_ARRAY_SIZE2WORDS cfg (idx + FIO_ARRAY_PADDING)
                         in a\<lparr> ary := mem_realloc cfg (ary a) new_capa (ary_end a),
                               ary_capa := new_capa \<rparr>)
                   else a);
             a2 = a1\<lparr> ary := (ary a1)[ary_end a1 := type_invalid cfg], ary_end := ary_end a1 + 1 \<rparr>;
             a3 = (if idx \<ge> ary_end a2
                   then a2\<lparr> ary := mem_clear cfg (ary a2) (ary_end a2) (idx - ary_end a2),
                            ary_end := idx + 1 \<rparr>
                   else a2)
         in (a3\<lparr> ary := (ary a3)[idx := data] \<rparr>, idx))
      else
        (let i1 = index + int (ary_end a);
             (a1, i2) =
               (if i1 < 0
                then (let new_capa = FIO_ARRAY_SIZE2WORDS cfg
                                       (ary_capa a + FIO_ARRAY_PADDING + nat (- i1));
                          valid_data = ary_end a - ary_start a;
                          i3 = (i1 - int (ary_end a)) + int new_capa;
                          tmp = replicate (new_capa - valid_data) (type_invalid cfg)
                                @ take valid_data (drop (ary_start a) (ary a))
                      in (\<lparr> ary = tmp, ary_capa = new_capa, ary_start = nat i3, ary_end = new_capa \<rparr>,
                          i3))
                else (a, i1));
             idx = nat i2;
             a2 = (if idx < ary_start a1
                   then a1\<lparr> ary := mem_clear cfg (ary a1) idx (ary_start a1 - idx), ary_start := idx \<rparr>
                   else a1)
         in (a2\<lparr> ary := (ary a2)[idx := data] \<rparr>, idx)))"

text \<open>\<open>push\<close>: the pointer returned is the index of the new cell.\<close>

definition ary_push :: "'a ary_cfg \<Rightarrow> 'a ary_s \<Rightarrow> 'a \<Rightarrow> 'a ary_s \<times> nat" where
  "ary_push cfg a data =
     (if ary_end a \<ge> ary_capa a then ary_set cfg a (int (ary_end a)) data
      else (a\<lparr> ary := (ary a)[ary_end a := data], ary_end := ary_end a + 1 \<rparr>, ary_end a))"

text \<open>\<open>pop\<close>: the return code, the value stored through \<open>old\<close>, and the array.\<close>

definition ary_pop :: "'a ary_cfg \<Rightarrow> 'a ary_s \<Rightarrow> int \<times> 'a \<times> 'a ary_s" where
  "ary_pop cfg a =
     (if ary_start a = ary_end a then (- 1, type_invalid cfg, a)
      else (let a1 = a\<lparr> ary_end := ary_end a - 1 \<rparr> in (0, ary a1 ! ary_end a1, a1)))"

definition ary_unshift :: "'a ary_cfg \<Rightarrow> 'a ary_s \<Rightarrow> 'a \<Rightarrow> 'a ary_s \<times> nat" where
  "ary_unshift cfg a data =
     (if ary_start a \<noteq> 0
      then (let a1 = a\<lparr> ary_start := ary_start a - 1 \<rparr>
            in (a1\<lparr> ary := (ary a1)[ary_start a1 := data] \<rparr>, ary_start a1))
      else ary_set cfg a (- 1 - int (ary_end a)) data)"

definition ary_shift :: "'a ary_cfg \<Rightarrow> 'a ary_s \<Rightarrow> int \<times> 'a \<times> 'a ary_s" where
  "ary_shift cfg a =
     (if ary_start a = ary_end a then (- 1, type_invalid cfg, a)
      else (0, ary a ! ary_start a, a\<lparr> ary_start := ary_start a + 1 \<rparr>))"

text \<open>The live contents, and the relation every array of the API satisfies.\<close>

definition ary_live :: "'a ary_s \<Rightarrow> 'a list" where
  "ary_live a = take (ary_end a - ary_start a) (drop (ary_start a) (ary a))"

definition ary_wf :: "'a ary_s \<Rightarrow> bool" where
  "ary_wf a \<longleftrightarrow> ary_start a \<le> ary_end a \<and> ary_end a \<le> ary_capa a \<and> length (ary a) = ary_capa a"

text \<open>
  Test data: an \<open>int\<close> array (\<open>sizeof\<close> 4, invalid value 0), filled by eight calls of
  \<open>push\<close> from the initial state and then shortened by one \<open>shift\<close>.
\<close>

definition int_cfg :: "int ary_cfg" where
  "int_cfg = \<lparr> type_invalid = 0, type_size = 4, fresh_cell = 77 \<rparr>"

definition pushed8 :: "int ary_s" where
  "pushed8 = foldl (\<lambda>a x. fst (ary_push int_cfg a x)) FIO_ARRAY_INIT [1, 2, 3, 4, 5, 6, 7, 8]"

definition pushed8_shifted :: "int ary_s" where
  "pushed8_shifted = snd (snd (ary_shift int_cfg pushed8))"

section \<open>The string\<close>

type_synonym byte = "8 word"

text \<open>
  A data pointer is \<open>NULL\<close>, the inline area of the string record itself (what
  \<open>FIO_STRING_SMALL_DATA\<close> yields) or a block of the allocator; the number tells blocks
  apart. The deallocator is absent (static data), the default one or one of the user's.
\<close>

datatype pointer = Null | Inline | Heap nat

datatype dealloc_fn = No_dealloc | Default_dealloc | User_dealloc

text \<open>
  \<open>fio_string_s\<close>. The byte \<open>special\<close> is split into its small flag (bit 0), its frozen
  flag (bit 1) and the small length (the remaining six bits). \<open>str_mem\<close> holds the bytes
  the data pointer leads to, from the first byte to the last one that belongs to the
  string's storage: the 47 bytes after \<open>special\<close> for a small string, \<open>capa + 1\<close> bytes
  of the block otherwise. A write past that storage is not represented.
\<close>

record fio_string_s =
  str_small :: bool
  str_frozen :: bool
  str_small_len :: nat
  str_capa :: nat
  str_len :: nat
  str_data :: pointer
  str_dealloc :: dealloc_fn
  str_mem :: "byte list"

record fio_string_info_s =
  info_capa :: nat
  info_len :: nat
  info_data :: pointer

text \<open>
  \<open>sizeof(fio_string_s) - 2\<close> with 8-byte pointers and the aligned layout, and
  \<open>FIO_STRING_CAPA2WORDS\<close> with a 16-byte \<open>long double\<close>.
\<close>

definition FIO_STRING_SMALL_CAPA :: nat where
  "FIO_STRING_SMALL_CAPA = 46"

definition FIO_STRING_CAPA2WORDS :: "nat \<Rightarrow> nat" where
  "FIO_STRING_CAPA2WORDS num = (num + 1) OR 15"

definition FIO_STRING_INIT :: fio_string_s where
  "FIO_STRING_INIT = \<lparr> str_small = True, str_frozen = False, str_small_len = 0, str_capa = 0,
     str_len = 0, str_data = Null, str_dealloc = No_dealloc,
     str_mem = replicate (FIO_STRING_SMALL_CAPA + 1) 0 \<rparr>"

definition FIO_STRING_IS_SMALL :: "fio_string_s \<Rightarrow> bool" where
  "FIO_STRING_IS_SMALL s \<longleftrightarrow> str_small s \<or> str_data s = Null"

definition FIO_STRING_SMALL_LEN_SET :: "fio_string_s \<Rightarrow> nat \<Rightarrow> fio_string_s" where
  "FIO_STRING_SMALL_LEN_SET s l = s\<lparr> str_small := True, str_small_len := l mod 64 \<rparr>"

definition fio_str_info :: "fio_string_s \<Rightarrow> fio_string_info_s" where
  "fio_str_info s =
     (if FIO_STRING_IS_SMALL s
      then \<lparr> info_capa = (if str_frozen s then 0 else FIO_STRING_SMALL_CAPA),
             info_len = str_small_len s, info_data = Inline \<rparr>
      else \<lparr> info_capa = (if str_frozen s then 0 else str_capa s),
             info_len = str_len s, info_data = str_data s \<rparr>)"

definition fio_str_len :: "fio_string_s \<Rightarrow> nat" where
  "fio_str_len s = (if FIO_STRING_IS_SMALL s then str_small_len s else str_len s)"

definition fio_str_freeze :: "fio_string_s \<Rightarrow> fio_string_s" where
  "fio_str_freeze s = s\<lparr> str_frozen := True \<rparr>"

text \<open>The bytes of the string: the first \<open>len\<close> bytes at the data pointer.\<close>

definition fio_str_content :: "fio_string_s \<Rightarrow> byte list" where
  "fio_str_content s = take (fio_str_len s) (str_mem s)"

text \<open>
  A new block of \<open>n\<close> bytes that starts with \<open>keep\<close>; the bytes after it are zero (as
  \<open>calloc\<close> leaves them; after \<open>realloc\<close> nothing reads them before they are written).
\<close>

definition new_block :: "nat \<Rightarrow> byte list \<Rightarrow> byte list" where
  "new_block n keep = take n (keep @ replicate (n - length keep) 0)"

definition next_block :: "pointer \<Rightarrow> pointer" where
  "next_block p = (case p of Heap k \<Rightarrow> Heap (Suc k) | _ \<Rightarrow> Heap 0)"

text \<open>
  \<open>reserve\<close>; memory is taken to be available. The info returned after a small string
  moved to a block reads the small length from the record just overwritten, which is 0.
\<close>

definition fio_str_reserve :: "fio_string_s \<Rightarrow> nat \<Rightarrow> fio_string_info_s \<times> fio_string_s" where
  "fio_str_reserve s amount =
     (if str_frozen s then (fio_str_info s, s)
      else if FIO_STRING_IS_SMALL s then
        (if amount \<le> FIO_STRING_SMALL_CAPA
         then (\<lparr> info_capa = FIO_STRING_SMALL_CAPA, info_len = str_small_len s,
                  info_data = Inline \<rparr>, s)
         else
           (let amount' = FIO_STRING_CAPA2WORDS amount;
                tmp = new_block (amount' + 1)
                        (if str_small_len s \<noteq> 0 then take (str_small_len s + 1) (str_mem s)
                         else [0]);
                s' = \<lparr> str_small = False, str_frozen = False, str_small_len = 0,
                       str_capa = amount', str_len = str_small_len s,
                       str_data = next_block (str_data s), str_dealloc = Default_dealloc,
                       str_mem = tmp \<rparr>
            in (\<lparr> info_capa = amount', info_len = str_small_len s', info_data = str_data s' \<rparr>,
                s')))
      else if amount < str_capa s then
        (\<lparr> info_capa = str_capa s, info_len = str_len s, info_data = str_data s \<rparr>, s)
      else
        (let amount' = FIO_STRING_CAPA2WORDS amount;
             tmp = (if str_dealloc s = Default_dealloc
                    then new_block (amount' + 1) (take (str_len s + 1) (str_mem s))
                    else new_block (amount' + 1)
                           (if str_len s \<noteq> 0 then take (str_len s + 1) (str_mem s) else []));
             s' = s\<lparr> str_dealloc := Default_dealloc, str_capa := amount',
                     str_data := next_block (str_data s), str_mem := tmp[amount' := 0] \<rparr>
         in (\<lparr> info_capa = str_capa s', info_len = str_len s', info_data = str_data s' \<rparr>, s')))"

text \<open>\<open>resize\<close>; the label \<open>big\<close> is \<open>resize_big\<close>.\<close>

definition resize_big :: "fio_string_s \<Rightarrow> nat \<Rightarrow> fio_string_info_s \<times> fio_string_s" where
  "resize_big s size' =
     (let s' = s\<lparr> str_len := size', str_mem := (str_mem s)[size' := 0] \<rparr>
      in (\<lparr> info_capa = str_capa s', info_len = size', info_data = str_data s' \<rparr>, s'))"

definition fio_str_resize :: "fio_string_s \<Rightarrow> nat \<Rightarrow> fio_string_info_s \<times> fio_string_s" where
  "fio_str_resize s size' =
     (if str_frozen s then (fio_str_info s, s)
      else if FIO_STRING_IS_SMALL s then
        (if size' \<le> FIO_STRING_SMALL_CAPA
         then (let s1 = FIO_STRING_SMALL_LEN_SET s size';
                   s2 = s1\<lparr> str_mem := (str_mem s1)[size' := 0] \<rparr>
               in (\<lparr> info_capa = FIO_STRING_SMALL_CAPA, info_len = size', info_data = Inline \<rparr>,
                   s2))
         else (let s1 = FIO_STRING_SMALL_LEN_SET s FIO_STRING_SMALL_CAPA;
                   s2 = snd (fio_str_reserve s1 size')
               in resize_big s2 size'))
      else
        (let s1 = (if size' \<ge> str_capa s
                   then (let s0 = (if str_dealloc s \<noteq> No_dealloc \<and> str_capa s \<noteq> 0
                                   then s\<lparr> str_len := str_capa s \<rparr> else s)
                         in snd (fio_str_reserve s0 size'))
                   else s)
         in resize_big s1 size'))"

text \<open>
  Storing the bytes \<open>bs\<close> one after the other from offset \<open>pos\<close> on (the effect of
  \<open>*(writer++) = ...\<close> repeated).
\<close>

definition mem_write :: "byte list \<Rightarrow> nat \<Rightarrow> byte list \<Rightarrow> byte list" where
  "mem_write mem pos bs = take (length mem) (take pos mem @ bs @ drop (pos + length bs) mem)"

subsection \<open>Base64\<close>

definition b64_encoding :: "bool \<Rightarrow> byte list" where
  "b64_encoding url_encoded =
     (if \<not> url_encoded
      then map of_char ''ABCDEFGHIJKLMNOPQRSTUVWXYZabcdefghijklmnopqrstuvwxyz0123456789+/=''
      else map of_char ''ABCDEFGHIJKLMNOPQRSTUVWXYZabcdefghijklmnopqrstuvwxyz0123456789-_='')"

definition enc_char :: "bool \<Rightarrow> byte \<Rightarrow> byte" where
  "enc_char url_encoded idx = b64_encoding url_encoded ! unat idx"

definition pad_char :: byte where
  "pad_char = 61"

text \<open>The bytes \<open>write_b64enc\<close> writes: its loop over the groups of three, then the ending.\<close>

fun b64enc_groups :: "bool \<Rightarrow> byte list \<Rightarrow> byte list" where
  "b64enc_groups u (tmp1 # tmp2 # tmp3 # rest) =
     [enc_char u (drop_bit 2 tmp1 AND 63),
      enc_char u (push_bit 4 (tmp1 AND 3) OR (drop_bit 4 tmp2 AND 15)),
      enc_char u (push_bit 2 (tmp2 AND 15) OR (drop_bit 6 tmp3 AND 3)),
      enc_char u (tmp3 AND 63)] @ b64enc_groups u rest"
| "b64enc_groups u [tmp1, tmp2] =
     [enc_char u (drop_bit 2 tmp1 AND 63),
      enc_char u (push_bit 4 (tmp1 AND 3) OR (drop_bit 4 tmp2 AND 15)),
      enc_char u (push_bit 2 (tmp2 AND 15)),
      pad_char]"
| "b64enc_groups u [tmp1] =
     [enc_char u (drop_bit 2 tmp1 AND 63),
      enc_char u (push_bit 4 (tmp1 AND 3)),
      pad_char, pad_char]"
| "b64enc_groups u [] = []"

definition fio_str_write_b64enc ::
    "fio_string_s \<Rightarrow> byte list \<Rightarrow> bool \<Rightarrow> fio_string_info_s \<times> fio_string_s" where
  "fio_str_write_b64enc s data url_encoded =
     (if data = [] then (fio_str_info s, s)
      else
        (let groups = length data div 3;
             md = length data - groups * 3;
             target_size = (groups + (if md \<noteq> 0 then 1 else 0)) * 4;
             org_len = fio_str_len s;
             (i, s1) = fio_str_resize s (org_len + target_size)
         in (i, s1\<lparr> str_mem := mem_write (str_mem s1) org_len (b64enc_groups url_encoded data) \<rparr>)))"

text \<open>The decoding array, as the source lists it.\<close>

definition base64_decodes_table :: "byte list" where
  "base64_decodes_table = [
      0, 0, 0, 0, 0, 0, 0, 0, 0, 0, 0, 0, 0, 0, 0, 0,
      0, 0, 0, 0, 0, 0, 0, 0, 0, 0, 0, 0, 0, 0, 0, 0,
      0, 0, 0, 0, 0, 0, 0, 0, 0, 0, 0, 125, 127, 125, 0, 127,
      105, 107, 109, 111, 113, 115, 117, 119, 121, 123, 0, 0, 0, 129, 0, 0,
      0, 1, 3, 5, 7, 9, 11, 13, 15, 17, 19, 21, 23, 25, 27, 29,
      31, 33, 35, 37, 39, 41, 43, 45, 47, 49, 51, 0, 0, 0, 0, 127,
      0, 53, 55, 57, 59, 61, 63, 65, 67, 69, 71, 73, 75, 77, 79, 81,
      83, 85, 87, 89, 91, 93, 95, 97, 99, 101, 103, 0, 0, 0, 0, 0,
      0, 0, 0, 0, 0, 0, 0, 0, 0, 0, 0, 0, 0, 0, 0, 0,
      0, 0, 0, 0, 0, 0, 0, 0, 0, 0, 0, 0, 0, 0, 0, 0,
      0, 0, 0, 0, 0, 0, 0, 0, 0, 0, 0, 0, 0, 0, 0, 0,
      0, 0, 0, 0, 0, 0, 0, 0, 0, 0, 0, 0, 0, 0, 0, 0,
      0, 0, 0, 0, 0, 0, 0, 0, 0, 0, 0, 0, 0, 0, 0, 0,
      0, 0, 0, 0, 0, 0, 0, 0, 0, 0, 0, 0, 0, 0, 0, 0,
      0, 0, 0, 0, 0, 0, 0, 0, 0, 0, 0, 0, 0, 0, 0, 0,
      0, 0, 0, 0, 0, 0, 0, 0, 0, 0, 0, 0, 0, 0, 0, 0]"

definition base64_decodes :: "byte \<Rightarrow> byte" where
  "base64_decodes x = base64_decodes_table ! unat x"

definition FIO_BASE64_BITVAL :: "byte \<Rightarrow> byte" where
  "FIO_BASE64_BITVAL x = drop_bit 1 (base64_decodes x) AND 63"

text \<open>\<open>isspace\<close> in the C locale.\<close>

definition isspace :: "byte \<Rightarrow> bool" where
  "isspace c \<longleftrightarrow> c = 9 \<or> c = 10 \<or> c = 11 \<or> c = 12 \<or> c = 13 \<or> c = 32"

text \<open>\<open>while (len && !base64_decodes[encoded[len - 1]]) len--\<close>.\<close>

definition skip_unknown_at_end :: "byte list \<Rightarrow> byte list" where
  "skip_unknown_at_end encoded = rev (dropWhile (\<lambda>x. base64_decodes x = 0) (rev encoded))"

lemma dropWhile_hd_shorter: "xs \<noteq> [] \<Longrightarrow> P (hd xs) \<Longrightarrow> length (dropWhile P xs) < length xs"
  by (cases xs) (auto simp: le_imp_less_Suc length_dropWhile_le)

text \<open>
  The main loop of \<open>write_b64dec\<close> on the bytes still to be read (\<open>len\<close> is their number):
  the bytes written so far, and the bytes left when fewer than four remain, or \<open>None\<close>
  where the source returns the \<open>NULL\<close> info.
\<close>

function b64dec_groups :: "byte list \<Rightarrow> byte list \<Rightarrow> byte list \<times> byte list option" where
  "b64dec_groups encoded out =
     (if length encoded \<ge> 4 then
        (if isspace (hd encoded) then b64dec_groups (dropWhile isspace encoded) out
         else
           (let tmp1 = encoded ! 0; tmp2 = encoded ! 1; tmp3 = encoded ! 2; tmp4 = encoded ! 3 in
            if base64_decodes tmp1 = 0 \<or> base64_decodes tmp2 = 0 \<or>
               base64_decodes tmp3 = 0 \<or> base64_decodes tmp4 = 0
            then (out, None)
            else b64dec_groups (drop 4 encoded)
                   (out @ [push_bit 2 (FIO_BASE64_BITVAL tmp1) OR drop_bit 4 (FIO_BASE64_BITVAL tmp2),
                           push_bit 4 (FIO_BASE64_BITVAL tmp2) OR drop_bit 2 (FIO_BASE64_BITVAL tmp3),
                           push_bit 6 (FIO_BASE64_BITVAL tmp3) OR FIO_BASE64_BITVAL tmp4])))
      else (out, Some encoded))"
  by pat_completeness auto
termination
proof (relation "measure (\<lambda>(encoded, out). length encoded)")
  show "wf (measure (\<lambda>(encoded, out). length encoded))"
    by simp
next
  fix encoded out :: "byte list"
  assume "4 \<le> length encoded" and "isspace (hd encoded)"
  then have "length (dropWhile isspace encoded) < length encoded"
    by (intro dropWhile_hd_shorter) auto
  then show "((dropWhile isspace encoded, out), (encoded, out))
               \<in> measure (\<lambda>(encoded, out). length encoded)"
    by simp
next
  fix encoded out :: "byte list" and x xa xb xc
  assume "4 \<le> length encoded"
  then show "((drop 4 encoded, out @ [x, xa, xb]), (encoded, out))
               \<in> measure (\<lambda>(encoded, out). length encoded)"
    by simp
qed

text \<open>The \<open>switch (len)\<close> that decodes a tail of one, two or three bytes.\<close>

definition b64dec_tail :: "byte list \<Rightarrow> byte list option" where
  "b64dec_tail encoded =
     (case encoded of
        [tmp1] \<Rightarrow>
          if base64_decodes tmp1 = 0 then None else Some [FIO_BASE64_BITVAL tmp1]
      | [tmp1, tmp2] \<Rightarrow>
          if base64_decodes tmp1 = 0 \<or> base64_decodes tmp2 = 0 then None
          else Some [push_bit 2 (FIO_BASE64_BITVAL tmp1) OR drop_bit 6 (FIO_BASE64_BITVAL tmp2),
                     push_bit 4 (FIO_BASE64_BITVAL tmp2)]
      | [tmp1, tmp2, tmp3] \<Rightarrow>
          if base64_decodes tmp1 = 0 \<or> base64_decodes tmp2 = 0 \<or> base64_decodes tmp3 = 0 then None
          else Some [push_bit 2 (FIO_BASE64_BITVAL tmp1) OR drop_bit 6 (FIO_BASE64_BITVAL tmp2),
                     push_bit 4 (FIO_BASE64_BITVAL tmp2) OR drop_bit 2 (FIO_BASE64_BITVAL tmp3),
                     push_bit 6 (FIO_BASE64_BITVAL tmp3)]
      | _ \<Rightarrow> Some [])"

text \<open>
  The count after the padding test: \<open>encoded\<close> then points behind the last byte read, so
  \<open>encoded[-1]\<close> and \<open>encoded[-2]\<close> are the last two bytes of the input as shortened; a
  byte in front of the input reads as NUL here.
\<close>

definition b64dec_written :: "byte list \<Rightarrow> nat \<Rightarrow> nat" where
  "b64dec_written encoded n =
     (let e1 = (if length encoded \<ge> 1 then encoded ! (length encoded - 1) else 0);
          e2 = (if length encoded \<ge> 2 then encoded ! (length encoded - 2) else 0)
      in if e1 = pad_char
         then (let w1 = int n - 1; w2 = (if e2 = pad_char then w1 - 1 else w1)
               in if w2 < 0 then 0 else nat w2)
         else n)"

definition null_info :: fio_string_info_s where
  "null_info = \<lparr> info_capa = 0, info_len = 0, info_data = Null \<rparr>"

definition fio_str_write_b64dec ::
    "fio_string_s \<Rightarrow> byte list \<Rightarrow> fio_string_info_s \<times> fio_string_s" where
  "fio_str_write_b64dec s encoded0 =
     (if encoded0 = [] then (fio_str_info s, s)
      else
        (let encoded = skip_unknown_at_end encoded0;
             org_len = fio_str_len s;
             (i, s1) = fio_str_reserve s (org_len + (length encoded div 4) * 3 + 3)
         in case b64dec_groups encoded [] of
              (out, None) \<Rightarrow> (null_info, s1\<lparr> str_mem := mem_write (str_mem s1) org_len out \<rparr>)
            | (out, Some rest) \<Rightarrow>
                (case b64dec_tail (dropWhile isspace rest) of
                   None \<Rightarrow> (null_info, s1\<lparr> str_mem := mem_write (str_mem s1) org_len out \<rparr>)
                 | Some tail \<Rightarrow>
                     fio_str_resize
                       (s1\<lparr> str_mem := mem_write (str_mem s1) org_len (out @ tail) \<rparr>)
                       (org_len + b64dec_written encoded (length (out @ tail))))))"

text \<open>\<open>write\<close>: appends \<open>src\<close>.\<close>

definition fio_str_write :: "fio_string_s \<Rightarrow> byte list \<Rightarrow> fio_string_info_s \<times> fio_string_s" where
  "fio_str_write s src =
     (if src = [] \<or> str_frozen s then (fio_str_info s, s)
      else (let (state, s1) = fio_str_resize s (length src + fio_str_len s)
            in (state, s1\<lparr> str_mem := mem_write (str_mem s1) (info_len state - length src) src \<rparr>)))"

text \<open>Test data: the text \<open>abc\<close> in a small string, frozen.\<close>

definition bytes_of :: "string \<Rightarrow> byte list" where
  "bytes_of cs = map of_char cs"

definition frozen_abc :: fio_string_s where
  "frozen_abc = fio_str_freeze (snd (fio_str_write FIO_STRING_INIT (bytes_of ''abc'')))"

subsection \<open>Auxiliary notions for the string claims\<close>

definition str_wf :: "fio_string_s \<Rightarrow> bool" where
  "str_wf s \<longleftrightarrow>
     (if FIO_STRING_IS_SMALL s
      then str_small_len s \<le> FIO_STRING_SMALL_CAPA \<and> length (str_mem s) = FIO_STRING_SMALL_CAPA + 1
      else str_len s \<le> str_capa s \<and> length (str_mem s) = str_capa s + 1)"

definition str_room :: "fio_string_s \<Rightarrow> nat" where
  "str_room s = (if FIO_STRING_IS_SMALL s then FIO_STRING_SMALL_CAPA else str_capa s)"

fun interleave_ws :: "byte list list \<Rightarrow> byte list \<Rightarrow> byte list" where
  "interleave_ws (w # ws) (a # b # c # d # rest) = w @ [a, b, c, d] @ interleave_ws ws rest"
| "interleave_ws ws rest = rest"

definition enc_char_ok :: "bool \<Rightarrow> nat \<Rightarrow> bool" where
  "enc_char_ok u k \<longleftrightarrow> (let c = enc_char u (of_nat k) in
       FIO_BASE64_BITVAL c = of_nat k \<and> base64_decodes c \<noteq> 0 \<and> \<not> isspace c \<and> c \<noteq> pad_char)"

definition sextet1 :: "byte \<Rightarrow> byte" where "sextet1 t1 = drop_bit 2 t1 AND 63"

definition sextet2 :: "byte \<Rightarrow> byte \<Rightarrow> byte" where "sextet2 t1 t2 = push_bit 4 (t1 AND 3) OR (drop_bit 4 t2 AND 15)"

definition sextet3 :: "byte \<Rightarrow> byte \<Rightarrow> byte" where "sextet3 t2 t3 = push_bit 2 (t2 AND 15) OR (drop_bit 6 t3 AND 3)"

definition sextet4 :: "byte \<Rightarrow> byte" where "sextet4 t3 = t3 AND 63"

definition pad_count :: "byte list \<Rightarrow> nat" where
  "pad_count b = (3 - length b mod 3) mod 3"

section \<open>JSON output: the nesting limit\<close>

lemma cut_elements_Nil_iff [simp]: "cut_elements n xs = [] \<longleftrightarrow> xs = []"
  by (cases xs) simp_all

lemma cut_couplets_Nil_iff [simp]: "cut_couplets n kvs = [] \<longleftrightarrow> kvs = []"
  by (cases kvs) simp_all






section \<open>The JSON parser: the depth cap\<close>

lemma identify_depth:
  assumes "depth p \<le> JSON_MAX_DEPTH" and "fio_json_____identify env p buf i = (r, p', evs)"
  shows "depth p' \<le> JSON_MAX_DEPTH"
proof -
  have inc: "depth p \<noteq> JSON_MAX_DEPTH \<Longrightarrow> depth p + 1 \<le> JSON_MAX_DEPTH"
    using assms(1) unfolding JSON_MAX_DEPTH_def
    by (simp add: word_le_nat_alt unat_word_ariths word_unat_eq_iff)
  have dec: "depth p - 1 \<le> JSON_MAX_DEPTH" if "depth p \<noteq> 0"
    using assms(1) that unfolding JSON_MAX_DEPTH_def
    by (simp add: word_le_nat_alt unat_minus_one)
  show ?thesis
    using assms inc dec
    by (auto simp: fio_json_____identify_def Let_def next_expect_def
        split: if_splits option.splits prod.splits)
qed

lemma reachable_depth:
  "json_reachable env p0 p \<Longrightarrow> depth p0 \<le> JSON_MAX_DEPTH \<Longrightarrow> depth p \<le> JSON_MAX_DEPTH"
  by (induction rule: json_reachable.induct) (auto intro: identify_depth)

lemma first_loop_reachable:
  "parse_first_loop fuel env p buf b evs = Some (r, p', evs') \<Longrightarrow> json_reachable env p0 p
    \<Longrightarrow> json_reachable env p0 p'"
proof (induction fuel arbitrary: p b evs)
  case 0
  then show ?case by simp
next
  case (Suc fuel)
  obtain r1 p1 e1 where id: "fio_json_____identify env p buf b = (r1, p1, e1)"
    by (cases "fio_json_____identify env p buf b") auto
  have r1: "json_reachable env p0 p1"
    using Suc.prems(2) id by (rule json_reachable.step)
  show ?case
    using Suc.prems(1) id r1 Suc.IH[of p1] by (auto split: option.splits if_splits)
qed

lemma second_loop_reachable:
  "parse_second_loop fuel env p buf b evs = Some (r, p', evs') \<Longrightarrow> json_reachable env p0 p
    \<Longrightarrow> json_reachable env p0 p'"
proof (induction fuel arbitrary: p b evs)
  case 0
  then show ?case by simp
next
  case (Suc fuel)
  obtain r1 p1 e1 where id: "fio_json_____identify env p buf b = (r1, p1, e1)"
    by (cases "fio_json_____identify env p buf b") auto
  have r1: "json_reachable env p0 p1"
    using Suc.prems(2) id by (rule json_reachable.step)
  show ?case
    using Suc.prems id r1 Suc.IH[of p1] by (auto split: option.splits if_splits)
qed

text \<open>A whole call of \<open>fio_json_parse\<close> keeps the depth under the cap as well.\<close>

lemma fio_json_parse_depth:
  assumes "fio_json_parse fuel env p buf = Some (n, p', evs)" and "depth p \<le> JSON_MAX_DEPTH"
  shows "depth p' \<le> JSON_MAX_DEPTH"
proof -
  have "\<exists>q. json_reachable env p q \<and> depth q = depth p'"
    using assms(1)
    apply (auto simp: fio_json_parse_def split: option.splits sum.splits if_splits
        dest!: first_loop_reachable[where ?p0.0=p] second_loop_reachable[where ?p0.0=p]
        intro: json_reachable.start)
    apply blast+
    done
  then show ?thesis
    using reachable_depth assms(2) by metis
qed

lemma open_container_step:
  assumes "byte_at buf i = CHR ''{'' \<or> byte_at buf i = CHR ''[''"
    and "fio_json_____identify env p buf i = (r, p', evs)"
  shows "if depth p = JSON_MAX_DEPTH \<or> value_not_expected p
         then r = None \<and> On_error \<in> set evs \<and> depth p' = depth p
         else r = Some (i + 1) \<and> depth p' = depth p + 1 \<and> On_error \<notin> set evs"
proof -
  from assms(1) show ?thesis
  proof
    assume c: "byte_at buf i = CHR ''{''"
    have "fio_json_____identify env p buf i =
      (if value_not_expected p then (None, p, [On_error])
         else
           let p1 = p\<lparr> expect := 0, nesting := push_bit 1 (nesting p) \<rparr> in
           if depth p1 = JSON_MAX_DEPTH then (None, p1, [On_error])
           else (Some (i + 1), p1\<lparr> depth := depth p1 + 1 \<rparr>, [On_start_object]))"
      unfolding fio_json_____identify_def by (simp add: c)
    with assms(2) show ?thesis by (auto simp: Let_def split: if_splits)
  next
    assume c: "byte_at buf i = CHR ''[''"
    have "fio_json_____identify env p buf i =
      (if value_not_expected p then (None, p, [On_error])
         else
           let p1 = p\<lparr> expect := 2, nesting := push_bit 1 (nesting p) OR 1 \<rparr> in
           if depth p1 = JSON_MAX_DEPTH then (None, p1, [On_start_array, On_error])
           else (Some (i + 1), p1\<lparr> depth := depth p1 + 1 \<rparr>, [On_start_array]))"
      unfolding fio_json_____identify_def by (simp add: c)
    with assms(2) show ?thesis by (auto simp: Let_def split: if_splits)
  qed
qed

lemma second_loop_too_deep:
  assumes "b < length buf" and "depth p = JSON_MAX_DEPTH"
    and "buf ! b = CHR ''{'' \<or> buf ! b = CHR ''[''"
  shows "\<exists>p' evs'. parse_second_loop (Suc fuel) env p buf b evs = Some (Inl b, p', evs @ evs')
           \<and> On_error \<in> set evs' \<and> depth p' = depth p"
proof -
  obtain r p' evs' where id: "fio_json_____identify env p buf b = (r, p', evs')"
    by (cases "fio_json_____identify env p buf b") auto
  have c: "byte_at buf b = CHR ''{'' \<or> byte_at buf b = CHR ''[''"
    using assms(1,3) by (simp add: byte_at_def)
  from open_container_step[OF c id] assms(2)
  have "r = None" "On_error \<in> set evs'" "depth p' = depth p" by simp_all
  moreover have "depth p \<noteq> 0"
    using assms(2) by (simp add: JSON_MAX_DEPTH_def)
  ultimately show ?thesis
    using id assms(1) by simp
qed

text \<open>
  C2, as the code has it. The cap is \<open>JSON_MAX_DEPTH\<close>, which is 31. Whatever bytes the
  parser is fed from its initial state, through any number of calls: the depth counter
  never exceeds 31; a \<open>{\<close> or \<open>[\<close> met below the cap, where a value may stand, opens a
  container and raises the depth by one; met at depth 31 it fires \<open>on_error\<close>, leaves the
  depth as it is and \<open>identify\<close> returns \<open>NULL\<close>, so that the loop of \<open>fio_json_parse\<close>
  stops and reports the offset of that byte.
\<close>

theorem json_depth_cap:
  assumes "json_reachable env FIO_JSON_INIT p"
  shows "depth p \<le> JSON_MAX_DEPTH \<and> unat JSON_MAX_DEPTH = 31
    \<and> (\<forall>buf i r p' evs.
          (byte_at buf i = CHR ''{'' \<or> byte_at buf i = CHR ''['') \<and>
          fio_json_____identify env p buf i = (r, p', evs) \<longrightarrow>
            (if depth p = JSON_MAX_DEPTH \<or> value_not_expected p
             then r = None \<and> On_error \<in> set evs \<and> depth p' = depth p
             else r = Some (i + 1) \<and> depth p' = depth p + 1 \<and> On_error \<notin> set evs))
    \<and> (\<forall>fuel buf b evs.
          b < length buf \<and> depth p = JSON_MAX_DEPTH \<and>
          (buf ! b = CHR ''{'' \<or> buf ! b = CHR ''['') \<longrightarrow>
            (\<exists>p' evs'. parse_second_loop (Suc fuel) env p buf b evs = Some (Inl b, p', evs @ evs')
               \<and> On_error \<in> set evs' \<and> depth p' = depth p))"
proof -
  have "depth FIO_JSON_INIT \<le> JSON_MAX_DEPTH"
    by (simp add: FIO_JSON_INIT_def JSON_MAX_DEPTH_def)
  with assms have "depth p \<le> JSON_MAX_DEPTH"
    by (rule reachable_depth)
  moreover have "unat JSON_MAX_DEPTH = 31"
    by (simp add: JSON_MAX_DEPTH_def)
  ultimately show ?thesis
  proof (intro conjI allI impI)
    fix buf i r p' evs
    assume "(byte_at buf i = CHR ''{'' \<or> byte_at buf i = CHR ''['') \<and>
            fio_json_____identify env p buf i = (r, p', evs)"
    then have "byte_at buf i = CHR ''{'' \<or> byte_at buf i = CHR ''[''"
      and "fio_json_____identify env p buf i = (r, p', evs)"
      by simp_all
    then show "if depth p = JSON_MAX_DEPTH \<or> value_not_expected p
         then r = None \<and> On_error \<in> set evs \<and> depth p' = depth p
         else r = Some (i + 1) \<and> depth p' = depth p + 1 \<and> On_error \<notin> set evs"
      by (rule open_container_step)
  next
    fix fuel buf b evs
    assume "b < length buf \<and> depth p = JSON_MAX_DEPTH \<and>
            (buf ! b = CHR ''{'' \<or> buf ! b = CHR ''['')"
    then have "b < length buf" and "depth p = JSON_MAX_DEPTH"
      and "buf ! b = CHR ''{'' \<or> buf ! b = CHR ''[''"
      by simp_all
    then show "\<exists>p' evs'. parse_second_loop (Suc fuel) env p buf b evs = Some (Inl b, p', evs @ evs')
               \<and> On_error \<in> set evs' \<and> depth p' = depth p"
      by (rule second_loop_too_deep)
  qed
qed

lemma parser_at_31_reachable: "json_reachable plain_json_env FIO_JSON_INIT parser_at_31"
proof -
  have 1: "parse_first_loop 1 plain_json_env FIO_JSON_INIT (replicate 31 (CHR ''['')) 0 []
        = Some (Inr 1, \<lparr> nesting = 1, depth = 1, expect = 2 \<rparr>, [On_start_array])"
    by code_simp
  have 2: "parse_second_loop 40 plain_json_env \<lparr> nesting = 1, depth = 1, expect = 2 \<rparr>
          (replicate 31 (CHR ''['')) 1 []
        = Some (Inr 31, parser_at_31, replicate 30 On_start_array)"
    by code_simp
  from first_loop_reachable[OF 1 json_reachable.start]
  have "json_reachable plain_json_env FIO_JSON_INIT \<lparr> nesting = 1, depth = 1, expect = 2 \<rparr>" .
  from second_loop_reachable[OF 2 this] show ?thesis .
qed

theorem json_depth_cap_witness:
  "json_reachable plain_json_env FIO_JSON_INIT parser_at_31
   \<and> depth parser_at_31 = JSON_MAX_DEPTH
   \<and> fst (fio_json_____identify plain_json_env parser_at_31 ''[1,[2]]'' 3) = None
   \<and> On_error \<in> set (snd (snd (fio_json_____identify plain_json_env parser_at_31 ''[1,[2]]'' 3)))
   \<and> depth (fst (snd (fio_json_____identify plain_json_env parser_at_31 ''[1,[2]]'' 3))) = 31"
proof -
  have c: "byte_at ''[1,[2]]'' 3 = CHR ''[''"
    by (simp add: byte_at_def)
  have d: "depth parser_at_31 = JSON_MAX_DEPTH"
    by (simp add: parser_at_31_def JSON_MAX_DEPTH_def)
  obtain r p' evs where id: "fio_json_____identify plain_json_env parser_at_31 ''[1,[2]]'' 3 = (r, p', evs)"
    by (cases "fio_json_____identify plain_json_env parser_at_31 ''[1,[2]]'' 3") auto
  from json_depth_cap[OF parser_at_31_reachable]
  have "(byte_at ''[1,[2]]'' 3 = CHR ''{'' \<or> byte_at ''[1,[2]]'' 3 = CHR ''['') \<and>
        fio_json_____identify plain_json_env parser_at_31 ''[1,[2]]'' 3 = (r, p', evs) \<longrightarrow>
          (if depth parser_at_31 = JSON_MAX_DEPTH \<or> value_not_expected parser_at_31
           then r = None \<and> On_error \<in> set evs \<and> depth p' = depth parser_at_31
           else r = Some (3 + 1) \<and> depth p' = depth parser_at_31 + 1 \<and> On_error \<notin> set evs)"
    by blast
  with c d id have "r = None \<and> On_error \<in> set evs \<and> depth p' = depth parser_at_31"
    by simp
  then show ?thesis
    using parser_at_31_reachable d id by (simp add: parser_at_31_def)
qed

text \<open>
  C2 as the specification words it does not hold: no container is opened at a depth of
  32. Of 32 opening brackets the first 31 are consumed; the 32nd fires \<open>on_error\<close> (after
  \<open>on_start_array\<close>), the depth stays 31 and the parser reports 31 bytes consumed.
\<close>

theorem json_depth_32_counterexample:
  "fio_json_parse 40 plain_json_env FIO_JSON_INIT (replicate 32 (CHR ''[''))
     = Some (31, \<lparr>nesting = 0xFFFFFFFF, depth = 31, expect = 2\<rparr>,
             replicate 32 On_start_array @ [On_error])"
  by code_simp

section \<open>The dynamic array: push and pop\<close>

text \<open>
  C8 at an array the API produces: eight calls of \<open>push\<close> from the initial state fill the
  eight cells that were allocated, a \<open>shift\<close> advances \<open>start\<close> to 1. The next \<open>push\<close>
  finds no room and hands the absolute position \<open>end\<close> to \<open>set\<close>, which counts its index
  from \<open>start\<close>: the element lands one cell too far and the cell skipped becomes part of
  the array. The \<open>pop\<close> that follows succeeds and yields the element pushed, but the live
  contents are the seven elements from before followed by an invalid one.
\<close>

theorem push_pop_after_shift_not_restored:
  "ary_wf pushed8_shifted
   \<and> ary_live pushed8_shifted = [2, 3, 4, 5, 6, 7, 8]
   \<and> (let (a1, pos) = ary_push int_cfg pushed8_shifted 42;
           (rc, out, a2) = ary_pop int_cfg a1
       in rc = 0 \<and> out = 42 \<and> ary_live a2 = [2, 3, 4, 5, 6, 7, 8, 0])"
  by code_simp

subsection \<open>Dynamic strings: Base64\<close>

lemma nat_le_or: "(a :: nat) \<le> a OR b"
proof -
  have "int a \<le> int a OR int b" by (rule or_greater_eq) simp
  then show ?thesis by (metis of_nat_or_eq of_nat_le_iff)
qed

lemma capa2words_gt: "n < FIO_STRING_CAPA2WORDS n"
  unfolding FIO_STRING_CAPA2WORDS_def using nat_le_or[of "n + 1" 15] by simp

lemma next_block_not_null [simp]: "next_block p \<noteq> Null"
  by (cases p) (simp_all add: next_block_def)

lemma take_new_block: "k \<le> length keep \<Longrightarrow> k \<le> n \<Longrightarrow> take k (new_block n keep) = take k keep"
  by (simp add: new_block_def min_def)

lemma length_new_block [simp]: "length (new_block n keep) = n"
  by (simp add: new_block_def)

lemma reserve_props:
  assumes "str_wf s" "\<not> str_frozen s" "fio_str_len s \<le> amount"
  defines "s' \<equiv> snd (fio_str_reserve s amount)"
  shows "str_wf s'" "\<not> str_frozen s'" "fio_str_len s' = fio_str_len s"
    "fio_str_content s' = fio_str_content s" "amount \<le> str_room s'"
    "\<not> FIO_STRING_IS_SMALL s' \<Longrightarrow> amount < str_capa s'"
proof -
  note gt = capa2words_gt[of amount]
  show "str_wf s'" using assms(1-3) gt
    by (auto simp: s'_def fio_str_reserve_def str_wf_def Let_def FIO_STRING_IS_SMALL_def fio_str_len_def split: if_splits)
  show "\<not> str_frozen s'" using assms(1-3)
    by (auto simp: s'_def fio_str_reserve_def Let_def split: if_splits)
  show "fio_str_len s' = fio_str_len s" using assms(1-3)
    by (auto simp: s'_def fio_str_reserve_def Let_def FIO_STRING_IS_SMALL_def fio_str_len_def split: if_splits)
  show "fio_str_content s' = fio_str_content s" using assms(1-3) gt
    by (auto simp: s'_def fio_str_reserve_def Let_def FIO_STRING_IS_SMALL_def fio_str_len_def fio_str_content_def
        str_wf_def take_new_block split: if_splits)
  show "amount \<le> str_room s'" using assms(1-3) gt
    by (auto simp: s'_def fio_str_reserve_def Let_def FIO_STRING_IS_SMALL_def str_room_def split: if_splits)
  show "\<not> FIO_STRING_IS_SMALL s' \<Longrightarrow> amount < str_capa s'" using assms(1-3) gt
    by (auto simp: s'_def fio_str_reserve_def Let_def FIO_STRING_IS_SMALL_def str_room_def split: if_splits)
qed

lemma enc_char_table_std: "list_all (enc_char_ok False) [0..<64]"
  by code_simp

lemma enc_char_table_url: "list_all (enc_char_ok True) [0..<64]"
  by code_simp

lemma enc_char_props:
  assumes "unat idx < 64"
  shows "FIO_BASE64_BITVAL (enc_char u idx) = idx" "base64_decodes (enc_char u idx) \<noteq> 0"
    "\<not> isspace (enc_char u idx)" "enc_char u idx \<noteq> pad_char"
proof -
  have "unat idx \<in> set [0..<64]" using assms by simp
  moreover have "list_all (enc_char_ok u) [0..<64]"
    using enc_char_table_std enc_char_table_url by (cases u) simp_all
  ultimately have "enc_char_ok u (unat idx)"
    unfolding list_all_iff by blast
  then show "FIO_BASE64_BITVAL (enc_char u idx) = idx" "base64_decodes (enc_char u idx) \<noteq> 0"
    "\<not> isspace (enc_char u idx)" "enc_char u idx \<noteq> pad_char"
    by (simp_all add: enc_char_ok_def Let_def)
qed

lemma pad_props: "base64_decodes pad_char \<noteq> 0" "FIO_BASE64_BITVAL pad_char = 0" "\<not> isspace pad_char"
  by (simp_all add: pad_char_def base64_decodes_def base64_decodes_table_def FIO_BASE64_BITVAL_def isspace_def)

lemma isspace_unknown: "isspace c \<Longrightarrow> base64_decodes c = 0"
  by (auto simp: isspace_def base64_decodes_def base64_decodes_table_def)

lemma m63: "(63 :: byte) = mask 6" and m3: "(3 :: byte) = mask 2" and m15: "(15 :: byte) = mask 4"
  by (simp_all add: mask_eq_exp_minus_1)

lemma byte_eqI:
  fixes a b :: byte
  assumes "bit a 0 = bit b 0" "bit a 1 = bit b 1" "bit a 2 = bit b 2" "bit a 3 = bit b 3"
    "bit a 4 = bit b 4" "bit a 5 = bit b 5" "bit a 6 = bit b 6" "bit a 7 = bit b 7"
  shows "a = b"
proof (rule bit_word_eqI)
  fix n assume "n < LENGTH(8)"
  then have "n = 0 \<or> n = 1 \<or> n = 2 \<or> n = 3 \<or> n = 4 \<or> n = 5 \<or> n = 6 \<or> n = 7"
    by simp arith
  then show "bit a n = bit b n" using assms by (elim disjE) simp_all
qed

lemma lt64_I: "y AND 63 = y \<Longrightarrow> unat (y::byte) < 64"
proof -
  assume a: "y AND 63 = y"
  have "unat (y AND 63) \<le> unat (63::byte)"
    by (rule word_and_le1[THEN word_le_nat_alt[THEN iffD1]])
  then show ?thesis using a by simp
qed

lemma sextet_lt:
  "unat (sextet1 t1) < 64" "unat (sextet2 t1 t2) < 64" "unat (sextet3 t2 t3) < 64" "unat (sextet4 t3) < 64"
  unfolding sextet1_def sextet2_def sextet3_def sextet4_def m63 m3 m15
  by (rule lt64_I, unfold m63, rule byte_eqI, simp_all add: bit_simps)+

lemma sextet_join:
  "push_bit 2 (sextet1 t1) OR drop_bit 4 (sextet2 t1 t2) = t1"
  "push_bit 4 (sextet2 t1 t2) OR drop_bit 2 (sextet3 t2 t3) = t2"
  "push_bit 6 (sextet3 t2 t3) OR sextet4 t3 = t3"
  unfolding sextet1_def sextet2_def sextet3_def sextet4_def m63 m3 m15
  by (rule byte_eqI, simp_all add: bit_simps)+

lemma sextet_zero: "sextet2 t1 0 = push_bit 4 (t1 AND 3)" "sextet3 t2 0 = push_bit 2 (t2 AND 15)"
  by (simp_all add: sextet2_def sextet3_def)

declare b64dec_groups.simps [simp del]

lemma dec_ws:
  "length e \<ge> 4 \<Longrightarrow> isspace (hd e) \<Longrightarrow> b64dec_groups e out = b64dec_groups (dropWhile isspace e) out"
  by (subst b64dec_groups.simps) simp

lemma dec_short: "length e < 4 \<Longrightarrow> b64dec_groups e out = (out, Some e)"
  by (subst b64dec_groups.simps) simp

lemma dec_group:
  "\<not> isspace t1 \<Longrightarrow> base64_decodes t1 \<noteq> 0 \<Longrightarrow> base64_decodes t2 \<noteq> 0 \<Longrightarrow>
   base64_decodes t3 \<noteq> 0 \<Longrightarrow> base64_decodes t4 \<noteq> 0 \<Longrightarrow>
   b64dec_groups (t1 # t2 # t3 # t4 # r) out =
     b64dec_groups r (out @ [push_bit 2 (FIO_BASE64_BITVAL t1) OR drop_bit 4 (FIO_BASE64_BITVAL t2),
                           push_bit 4 (FIO_BASE64_BITVAL t2) OR drop_bit 2 (FIO_BASE64_BITVAL t3),
                           push_bit 6 (FIO_BASE64_BITVAL t3) OR FIO_BASE64_BITVAL t4])"
  by (subst b64dec_groups.simps) (simp add: Let_def)

lemma dec_bad:
  "\<not> isspace t1 \<Longrightarrow> base64_decodes t1 = 0 \<or> base64_decodes t2 = 0 \<or>
   base64_decodes t3 = 0 \<or> base64_decodes t4 = 0 \<Longrightarrow>
   b64dec_groups (t1 # t2 # t3 # t4 # r) out = (out, None)"
  by (subst b64dec_groups.simps) (auto simp add: Let_def)

lemma dec_ws_run:
  assumes "\<forall>x\<in>set w. isspace x" "\<not> isspace t1"
  shows "b64dec_groups (w @ t1 # t2 # t3 # t4 # r) out = b64dec_groups (t1 # t2 # t3 # t4 # r) out"
proof (cases w)
  case Nil then show ?thesis by simp
next
  case (Cons a w')
  have "dropWhile isspace (w @ t1 # t2 # t3 # t4 # r) = t1 # t2 # t3 # t4 # r"
    using assms by (simp add: dropWhile_append2)
  then show ?thesis using Cons assms(1) dec_ws[of "w @ t1 # t2 # t3 # t4 # r" out] by simp
qed

lemma dec_enc_groups:
  assumes "\<forall>w\<in>set wss. \<forall>x\<in>set w. isspace x"
  shows "\<exists>junk. length junk = pad_count b \<and>
           b64dec_groups (interleave_ws wss (b64enc_groups u b)) out = (out @ b @ junk, Some [])"
  using assms
proof (induction u b arbitrary: wss out rule: b64enc_groups.induct)
  case (1 u t1 t2 t3 rest)
  let ?c1 = "enc_char u (sextet1 t1)" and ?c2 = "enc_char u (sextet2 t1 t2)"
  and ?c3 = "enc_char u (sextet3 t2 t3)" and ?c4 = "enc_char u (sextet4 t3)"
  have enc: "b64enc_groups u (t1 # t2 # t3 # rest) = ?c1 # ?c2 # ?c3 # ?c4 # b64enc_groups u rest"
    by (simp add: sextet1_def sextet2_def sextet3_def sextet4_def)
  have grp: "b64dec_groups (?c1 # ?c2 # ?c3 # ?c4 # r) out = b64dec_groups r (out @ [t1, t2, t3])" for r out
    using dec_group[of ?c1 ?c2 ?c3 ?c4 r out]
    by (simp add: enc_char_props sextet_lt sextet_join)
  have pc: "pad_count (t1 # t2 # t3 # rest) = pad_count rest"
    by (simp add: pad_count_def)
  show ?case
  proof (cases wss)
    case Nil
    from "1.IH"[of "[]" "out @ [t1, t2, t3]"] obtain junk where
      "length junk = pad_count rest"
      "b64dec_groups (interleave_ws [] (b64enc_groups u rest)) (out @ [t1, t2, t3]) = ((out @ [t1, t2, t3]) @ rest @ junk, Some [])"
      by auto
    then show ?thesis using Nil enc grp pc by auto
  next
    case (Cons w ws)
    have w: "\<forall>x\<in>set w. isspace x" and ws: "\<forall>w\<in>set ws. \<forall>x\<in>set w. isspace x"
      using "1.prems" Cons by auto
    from "1.IH"[OF ws, of "out @ [t1, t2, t3]"] obtain junk where
      "length junk = pad_count rest"
      "b64dec_groups (interleave_ws ws (b64enc_groups u rest)) (out @ [t1, t2, t3]) = ((out @ [t1, t2, t3]) @ rest @ junk, Some [])"
      by auto
    moreover have "\<not> isspace ?c1" by (simp add: enc_char_props sextet_lt)
    ultimately show ?thesis using Cons enc grp pc dec_ws_run[OF w, of ?c1 ?c2 ?c3 ?c4] by auto
  qed
next
  case (2 u t1 t2)
  let ?c1 = "enc_char u (sextet1 t1)" and ?c2 = "enc_char u (sextet2 t1 t2)"
  and ?c3 = "enc_char u (sextet3 t2 0)"
  have enc: "b64enc_groups u [t1, t2] = [?c1, ?c2, ?c3, pad_char]"
    by (simp add: sextet1_def sextet2_def sextet3_def)
  have grp: "b64dec_groups (?c1 # ?c2 # ?c3 # pad_char # []) out = (out @ [t1, t2] @ [push_bit 6 (sextet3 t2 0)], Some [])" for out
    using dec_group[of ?c1 ?c2 ?c3 pad_char "[]" out]
    by (simp add: enc_char_props sextet_lt sextet_join pad_props dec_short)
  have ns: "\<not> isspace ?c1" by (simp add: enc_char_props sextet_lt)
  show ?case
  proof (cases wss)
    case Nil
    then show ?thesis using enc grp by (auto simp: pad_count_def)
  next
    case (Cons w ws)
    have w: "\<forall>x\<in>set w. isspace x" using "2.prems" Cons by auto
    show ?thesis using Cons enc grp dec_ws_run[OF w ns, of ?c2 ?c3 pad_char "[]"] by (auto simp: pad_count_def)
  qed
next
  case (3 u t1)
  let ?c1 = "enc_char u (sextet1 t1)" and ?c2 = "enc_char u (sextet2 t1 0)"
  have enc: "b64enc_groups u [t1] = [?c1, ?c2, pad_char, pad_char]"
    by (simp add: sextet1_def sextet2_def)
  have grp: "b64dec_groups (?c1 # ?c2 # pad_char # pad_char # []) out = (out @ [t1] @ [push_bit 4 (sextet2 t1 0), 0], Some [])" for out
    using dec_group[of ?c1 ?c2 pad_char pad_char "[]" out] sextet_join(1)[of t1 0]
    by (simp add: enc_char_props sextet_lt pad_props dec_short)
  have ns: "\<not> isspace ?c1" by (simp add: enc_char_props sextet_lt)
  show ?case
  proof (cases wss)
    case Nil
    then show ?thesis using enc grp by (auto simp: pad_count_def)
  next
    case (Cons w ws)
    have w: "\<forall>x\<in>set w. isspace x" using "3.prems" Cons by auto
    show ?thesis using Cons enc grp dec_ws_run[OF w ns, of ?c2 pad_char pad_char "[]"] by (auto simp: pad_count_def)
  qed
next
  case (4 u)
  show ?case by (cases wss) (auto simp: pad_count_def dec_short)
qed

lemma resize_fits:
  assumes "str_wf s" "\<not> str_frozen s"
    and "if FIO_STRING_IS_SMALL s then n \<le> FIO_STRING_SMALL_CAPA else n < str_capa s"
  shows "str_wf (snd (fio_str_resize s n)) \<and> \<not> str_frozen (snd (fio_str_resize s n)) \<and>
    fio_str_len (snd (fio_str_resize s n)) = n \<and>
    str_mem (snd (fio_str_resize s n)) = (str_mem s)[n := 0]"
proof (cases "FIO_STRING_IS_SMALL s")
  case True
  then have n: "n \<le> FIO_STRING_SMALL_CAPA" using assms(3) by simp
  then have m: "n mod 64 = n" by (simp add: FIO_STRING_SMALL_CAPA_def)
  have eq: "snd (fio_str_resize s n) =
      s\<lparr> str_small := True, str_small_len := n, str_mem := (str_mem s)[n := 0] \<rparr>"
    using True assms(2) n m
    by (simp add: fio_str_resize_def Let_def FIO_STRING_SMALL_LEN_SET_def)
  have len: "length (str_mem s) = FIO_STRING_SMALL_CAPA + 1"
    using assms(1) True by (simp add: str_wf_def)
  show ?thesis
    unfolding eq using assms(2) n len
    by (simp add: str_wf_def FIO_STRING_IS_SMALL_def fio_str_len_def)
next
  case False
  then have n: "n < str_capa s" using assms(3) by simp
  have eq: "snd (fio_str_resize s n) = s\<lparr> str_len := n, str_mem := (str_mem s)[n := 0] \<rparr>"
    using False assms(2) n
    by (simp add: fio_str_resize_def Let_def resize_big_def)
  have len: "length (str_mem s) = str_capa s + 1"
    using assms(1) False by (simp add: str_wf_def)
  have ns: "\<not> str_small s" "str_data s \<noteq> Null"
    using False by (simp_all add: FIO_STRING_IS_SMALL_def)
  show ?thesis
    unfolding eq using assms(2) n len ns
    by (simp add: str_wf_def FIO_STRING_IS_SMALL_def fio_str_len_def)
qed

lemma mem_write_take:
  assumes "pos + length bs \<le> length mem" "k \<le> length bs"
  shows "take (pos + k) (mem_write mem pos bs) = take pos mem @ take k bs"
proof -
  have l: "length (take pos mem) = pos" using assms by simp
  have "take (pos + k) (mem_write mem pos bs)
        = take (pos + k) (take pos mem @ bs @ drop (pos + length bs) mem)"
    using assms by (simp add: mem_write_def take_take min_absorb2)
  also have "\<dots> = take pos mem @ take k (bs @ drop (pos + length bs) mem)"
    using l by (simp add: take_append del: length_take)
  also have "\<dots> = take pos mem @ take k bs"
    using assms(2) by simp
  finally show ?thesis .
qed

lemma length_mem_write [simp]: "length (mem_write mem pos bs) = length mem"
  by (simp add: mem_write_def)

lemma length_b64enc: "length (b64enc_groups u b) = 4 * ((length b + 2) div 3)"
proof (induction u b rule: b64enc_groups.induct)
  case (1 u tmp1 tmp2 tmp3 rest)
  have "(length (tmp1 # tmp2 # tmp3 # rest) + 2) div 3 = Suc ((length rest + 2) div 3)"
    by simp
  then show ?case using 1 by simp
qed simp_all

lemma length_interleave: "length enc \<le> length (interleave_ws wss enc)"
  by (induction wss enc rule: interleave_ws.induct) simp_all

lemma pad_count_step: "pad_count (t1 # t2 # t3 # rest) = pad_count rest"
  by (simp add: pad_count_def)

lemma pad_count_len: "length b + pad_count b = 3 * ((length b + 2) div 3)"
proof (induction "False" b rule: b64enc_groups.induct)
  case (1 tmp1 tmp2 tmp3 rest)
  have "(length (tmp1 # tmp2 # tmp3 # rest) + 2) div 3 = Suc ((length rest + 2) div 3)"
    by simp
  then show ?case using 1 by (simp add: pad_count_step)
qed (simp_all add: pad_count_def)

lemma enc_ends:
  assumes "b \<noteq> []"
  shows "length (interleave_ws wss (b64enc_groups u b)) \<ge> 4
       \<and> base64_decodes (last (interleave_ws wss (b64enc_groups u b))) \<noteq> 0
       \<and> (last (interleave_ws wss (b64enc_groups u b)) = pad_char \<longleftrightarrow> pad_count b \<ge> 1)
       \<and> (last (butlast (interleave_ws wss (b64enc_groups u b))) = pad_char \<longleftrightarrow> pad_count b = 2)"
  using assms
proof (induction u b arbitrary: wss rule: b64enc_groups.induct)
  case (1 u t1 t2 t3 rest)
  let ?c1 = "enc_char u (sextet1 t1)" and ?c2 = "enc_char u (sextet2 t1 t2)"
  and ?c3 = "enc_char u (sextet3 t2 t3)" and ?c4 = "enc_char u (sextet4 t3)"
  have enc: "b64enc_groups u (t1 # t2 # t3 # rest) = ?c1 # ?c2 # ?c3 # ?c4 # b64enc_groups u rest"
    by (simp add: sextet1_def sextet2_def sextet3_def sextet4_def)
  have pc: "pad_count (t1 # t2 # t3 # rest) = pad_count rest"
    by (simp add: pad_count_def)
  show ?case
  proof (cases "rest = []")
    case True
    then show ?thesis using enc
      by (cases wss) (auto simp: pad_count_def enc_char_props sextet_lt butlast_append)
  next
    case False
    have ih: "length (interleave_ws ws (b64enc_groups u rest)) \<ge> 4 \<and>
        base64_decodes (last (interleave_ws ws (b64enc_groups u rest))) \<noteq> 0 \<and>
        (last (interleave_ws ws (b64enc_groups u rest)) = pad_char \<longleftrightarrow> pad_count rest \<ge> 1) \<and>
        (last (butlast (interleave_ws ws (b64enc_groups u rest))) = pad_char \<longleftrightarrow> pad_count rest = 2)" for ws
      using "1.IH"[OF False] by blast
    have ne: "interleave_ws ws (b64enc_groups u rest) \<noteq> []" "butlast (interleave_ws ws (b64enc_groups u rest)) \<noteq> []" for ws
      using ih[of ws] by (auto simp: butlast_conv_take)
    show ?thesis
    proof (cases wss)
      case Nil
      then show ?thesis using enc ih[of "[]"] ne[of "[]"] pc by (simp add: butlast_append)
    next
      case (Cons w ws)
      then show ?thesis using enc ih[of ws] ne[of ws] pc by (simp add: butlast_append)
    qed
  qed
next
  case (2 u t1 t2)
  have "enc_char u (push_bit 2 (t2 AND 15)) \<noteq> pad_char"
    using enc_char_props(4)[OF sextet_lt(3), of u t2 0] by (simp add: sextet3_def)
  then show ?case
    by (cases wss) (auto simp: pad_count_def pad_props butlast_append)
next
  case (3 u t1)
  then show ?case
    by (cases wss) (auto simp: pad_count_def pad_props butlast_append)
next
  case (4 u)
  then show ?case by simp
qed

lemma skip_unknown_append:
  assumes "\<forall>x\<in>set tr. base64_decodes x = 0"
  shows "skip_unknown_at_end (X @ tr) = skip_unknown_at_end X"
proof -
  have "dropWhile (\<lambda>x. base64_decodes x = 0) (rev tr @ rev X)
        = dropWhile (\<lambda>x. base64_decodes x = 0) (rev X)"
    using assms by (intro dropWhile_append2) simp
  then show ?thesis by (simp add: skip_unknown_at_end_def)
qed

lemma skip_unknown_id: "X \<noteq> [] \<Longrightarrow> base64_decodes (last X) \<noteq> 0 \<Longrightarrow> skip_unknown_at_end X = X"
  by (cases X rule: rev_cases) (simp_all add: skip_unknown_at_end_def)

lemma written_last:
  assumes "length X \<ge> 2"
  shows "b64dec_written X n =
     (if last X = pad_char then (if last (butlast X) = pad_char then n - 2 else n - 1) else n)"
proof -
  have ne: "X \<noteq> []" "butlast X \<noteq> []" using assms by (auto simp: butlast_conv_take)
  have 1: "X ! (length X - 1) = last X" using ne by (simp add: last_conv_nth)
  have "last (butlast X) = butlast X ! (length (butlast X) - 1)" using ne by (simp add: last_conv_nth)
  also have "\<dots> = X ! (length X - 2)" using assms by (simp add: nth_butlast numeral_2_eq_2)
  finally have 2: "X ! (length X - 2) = last (butlast X)" by simp
  show ?thesis using assms unfolding b64dec_written_def 1 2 Let_def
    by auto
qed

lemma b64dec_roundtrip:
  assumes wf: "str_wf s" and nf: "\<not> str_frozen s"
    and ws: "\<forall>w\<in>set wss. \<forall>x\<in>set w. isspace x" and tr: "\<forall>x\<in>set trailing. isspace x"
  shows "fio_str_content (snd (fio_str_write_b64dec s (interleave_ws wss (b64enc_groups u b) @ trailing)))
         = fio_str_content s @ b"
proof -
  define X where "X = interleave_ws wss (b64enc_groups u b)"
  define amount where "amount = fio_str_len s + (length X div 4) * 3 + 3"
  define s1 where "s1 = snd (fio_str_reserve s amount)"
  have tr0: "\<forall>x\<in>set trailing. base64_decodes x = 0" using tr isspace_unknown by blast
  have le: "fio_str_len s \<le> amount" by (simp add: amount_def)
  note r = reserve_props[OF wf nf le, folded s1_def]
  obtain junk where junk: "length junk = pad_count b"
    and dec: "b64dec_groups X [] = (b @ junk, Some [])"
    using dec_enc_groups[OF ws, of b u "[]"] unfolding X_def by auto
  have lenX: "4 * ((length b + 2) div 3) \<le> length X"
    unfolding X_def using length_interleave[of "b64enc_groups u b" wss] by (simp add: length_b64enc)
  have fit: "length (b @ junk) \<le> (length X div 4) * 3"
    using lenX junk pad_count_len[of b] by simp
  have room: "fio_str_len s + length (b @ junk) + 3 \<le> amount" using fit by (simp add: amount_def)
  have memlen: "amount < length (str_mem s1)"
    using r(1,5,6) by (auto simp: str_wf_def str_room_def split: if_splits)
  have skip: "skip_unknown_at_end (X @ trailing) = X \<and> b64dec_written X (length (b @ junk)) = length b"
  proof (cases "b = []")
    case True
    then have "X = []" by (cases wss) (simp_all add: X_def)
    then show ?thesis using True junk skip_unknown_append[OF tr0, of "[]"]
      by (simp add: skip_unknown_at_end_def b64dec_written_def pad_count_def pad_char_def)
  next
    case False
    note e = enc_ends[OF False, of wss u, folded X_def]
    have "X \<noteq> []" using e by auto
    then have "skip_unknown_at_end X = X" using e by (intro skip_unknown_id) simp_all
    then have "skip_unknown_at_end (X @ trailing) = X"
      using skip_unknown_append[OF tr0, of X] by simp
    moreover have "pad_count b \<le> 2" by (simp add: pad_count_def)
    then have "b64dec_written X (length (b @ junk)) = length b"
      using e junk by (subst written_last) auto
    ultimately show ?thesis by simp
  qed
  define s2 where "s2 = s1\<lparr> str_mem := mem_write (str_mem s1) (fio_str_len s) (b @ junk) \<rparr>"
  define n where "n = fio_str_len s + length b"
  have s2wf: "str_wf s2" "\<not> str_frozen s2"
    using r(1,2) by (auto simp: s2_def str_wf_def FIO_STRING_IS_SMALL_def)
  have nfit: "if FIO_STRING_IS_SMALL s2 then n \<le> FIO_STRING_SMALL_CAPA else n < str_capa s2"
    using r(5,6) room by (auto simp: s2_def n_def str_room_def FIO_STRING_IS_SMALL_def split: if_splits)
  note z = resize_fits[OF s2wf nfit]
  have z3: "fio_str_len (snd (fio_str_resize s2 n)) = n" and z4: "str_mem (snd (fio_str_resize s2 n)) = (str_mem s2)[n := 0]" using z by simp_all
  have content: "fio_str_content (snd (fio_str_resize s2 n)) = fio_str_content s @ b"
  proof -
    have "fio_str_content (snd (fio_str_resize s2 n)) = take n ((str_mem s2)[n := 0])"
      using z3 z4 by (simp add: fio_str_content_def)
    also have "\<dots> = take n (str_mem s2)" by simp
    also have "\<dots> = take (fio_str_len s + length b) (mem_write (str_mem s1) (fio_str_len s) (b @ junk))"
      by (simp add: n_def s2_def)
    also have "\<dots> = take (fio_str_len s) (str_mem s1) @ take (length b) (b @ junk)"
      using room memlen by (intro mem_write_take) simp_all
    also have "\<dots> = fio_str_content s @ b"
      using r(3,4) by (simp add: fio_str_content_def)
    finally show ?thesis .
  qed
  show ?thesis
  proof (cases "X @ trailing = []")
    case True
    then have "b = []" using lenX by (cases b) simp_all
    then show ?thesis using True by (simp add: fio_str_write_b64dec_def X_def[symmetric])
  next
    case False
    have "fio_str_write_b64dec s (X @ trailing) = fio_str_resize s2 n"
      unfolding fio_str_write_b64dec_def
      by (simp only: False if_False Let_def conjunct1[OF skip] conjunct2[OF skip] dec
          amount_def[symmetric]) 
        (simp add: s1_def[symmetric] case_prod_unfold b64dec_tail_def s2_def n_def conjunct2[OF skip, simplified])
    then show ?thesis using content by (simp add: X_def)
  qed
qed

end
